theory Spec2Isabelle
  imports Main
begin

section \<open>Python strings\<close>

text \<open>
  A Python \<open>str\<close> is modelled as a \<open>string\<close>, one \<open>char\<close> per code point. The
  character classes and case mappings below are those of Python on the ASCII range
  (code points below 128), which is the text this development covers; a \<open>char\<close> from
  128 on belongs to no class and has no case. The few non-ASCII glyphs of the
  source's fixed messages are written as their UTF-8 bytes.
\<close>

definition is_space :: "char \<Rightarrow> bool" where
  \<comment> \<open>\<open>str.isspace\<close>, \<open>str.strip\<close>, \<open>str.split\<close> and the regex class \<open>\s\<close>:
      tab, LF, VT, FF, CR, the separators FS GS RS US, and space\<close>
  "is_space c = (c \<in> set [CHR 0x09, CHR 0x0A, CHR 0x0B, CHR 0x0C, CHR 0x0D,
                           CHR 0x1C, CHR 0x1D, CHR 0x1E, CHR 0x1F, CHR '' ''])"

definition is_digit :: "char \<Rightarrow> bool" where
  \<comment> \<open>\<open>str.isdigit\<close> and the regex class \<open>\d\<close>\<close>
  "is_digit c = (c \<in> set ''0123456789'')"

definition lowers :: string where
  "lowers = ''abcdefghijklmnopqrstuvwxyz''"

definition uppers :: string where
  "uppers = ''ABCDEFGHIJKLMNOPQRSTUVWXYZ''"

definition is_lower :: "char \<Rightarrow> bool" where
  "is_lower c = (c \<in> set lowers)"

definition is_upper :: "char \<Rightarrow> bool" where
  "is_upper c = (c \<in> set uppers)"

definition is_alpha :: "char \<Rightarrow> bool" where
  \<comment> \<open>\<open>str.isalpha\<close> on one character; also the regex class \<open>[a-zA-Z]\<close>\<close>
  "is_alpha c = (is_lower c \<or> is_upper c)"

definition is_word :: "char \<Rightarrow> bool" where
  \<comment> \<open>the regex class \<open>\w\<close>, which decides \<open>\b\<close>\<close>
  "is_word c = (is_alpha c \<or> is_digit c \<or> c = CHR ''_'')"

definition to_lower :: "char \<Rightarrow> char" where
  "to_lower c = (case map_of (zip uppers lowers) c of Some d \<Rightarrow> d | None \<Rightarrow> c)"

definition to_upper :: "char \<Rightarrow> char" where
  "to_upper c = (case map_of (zip lowers uppers) c of Some d \<Rightarrow> d | None \<Rightarrow> c)"

definition str_lower :: "string \<Rightarrow> string" where
  "str_lower s = map to_lower s"

definition str_upper :: "string \<Rightarrow> string" where
  "str_upper s = map to_upper s"

text \<open>\<open>str.title\<close>: a cased character is upper-cased when the character before it is
  not cased (or there is none), and lower-cased otherwise.\<close>

fun title_from :: "bool \<Rightarrow> string \<Rightarrow> string" where
  "title_from prev_cased [] = []"
| "title_from prev_cased (c # cs) =
     (if is_alpha c
      then (if prev_cased then to_lower c else to_upper c) # title_from True cs
      else c # title_from False cs)"

definition str_title :: "string \<Rightarrow> string" where
  "str_title s = title_from False s"

definition str_strip :: "string \<Rightarrow> string" where
  "str_strip s = rev (dropWhile is_space (rev (dropWhile is_space s)))"

text \<open>\<open>str.split()\<close> with no separator: the maximal runs of non-whitespace.\<close>

fun split_acc :: "string \<Rightarrow> string \<Rightarrow> string list" where
  "split_acc cur [] = (if cur = [] then [] else [cur])"
| "split_acc cur (c # cs) =
     (if is_space c
      then (if cur = [] then split_acc [] cs else cur # split_acc [] cs)
      else split_acc (cur @ [c]) cs)"

definition str_split :: "string \<Rightarrow> string list" where
  "str_split s = split_acc [] s"

text \<open>\<open>str.split(sep)\<close> for a one-character separator: empty pieces are kept.\<close>

fun split_on :: "char \<Rightarrow> string \<Rightarrow> string list" where
  "split_on sep [] = [[]]"
| "split_on sep (c # cs) =
     (if c = sep then [] # split_on sep cs
      else (case split_on sep cs of
              [] \<Rightarrow> [[c]]
            | w # ws \<Rightarrow> (c # w) # ws))"

fun starts_with :: "string \<Rightarrow> string \<Rightarrow> bool" where
  "starts_with s [] = True"
| "starts_with [] (k # ks) = False"
| "starts_with (c # cs) (k # ks) = (c = k \<and> starts_with cs ks)"

text \<open>\<open>k in s\<close> for strings: \<open>k\<close> occurs in \<open>s\<close> as a substring.\<close>

fun str_contains :: "string \<Rightarrow> string \<Rightarrow> bool" where
  "str_contains [] k = (k = [])"
| "str_contains (c # cs) k = (starts_with (c # cs) k \<or> str_contains cs k)"

definition str_isalpha :: "string \<Rightarrow> bool" where
  "str_isalpha s = (s \<noteq> [] \<and> list_all is_alpha s)"

definition count_digits :: "string \<Rightarrow> nat" where
  \<comment> \<open>\<open>sum(c.isdigit() for c in s)\<close>\<close>
  "count_digits s = length (filter is_digit s)"

definition truthy :: "string option \<Rightarrow> bool" where
  \<comment> \<open>the truth value of a field that is \<open>None\<close> or a \<open>str\<close>\<close>
  "truthy v = (case v of None \<Rightarrow> False | Some s \<Rightarrow> s \<noteq> [])"

datatype py_error = ValueError | IndexError

fun list_index :: "'a list \<Rightarrow> 'a \<Rightarrow> py_error + nat" where
  "list_index [] x = Inl ValueError"
| "list_index (y # ys) x =
     (if y = x then Inr 0
      else (case list_index ys x of Inl e \<Rightarrow> Inl e | Inr i \<Rightarrow> Inr (Suc i)))"


section \<open>The regular expressions of the \<open>re\<close> module\<close>

text \<open>
  Python's \<open>re\<close> is a backtracking matcher: alternatives are tried left to right, a
  greedy quantifier tries the longest run first and gives characters back one at a time,
  a lazy one tries the shortest first. Every quantifier in the source's patterns stands
  on a single character or character class, so \<open>Rep\<close> repeats a class.
\<close>

datatype regex =
    Eps
  | Atom "char \<Rightarrow> bool"
  | Seq regex regex
  | Alt regex regex
  | Rep bool "char \<Rightarrow> bool" nat "nat option"
      \<comment> \<open>greedy?, class, least count, greatest count (\<open>None\<close>: unbounded)\<close>
  | Group nat regex
  | Lookahead regex
  | Bos  \<comment> \<open>\<open>^\<close> without MULTILINE\<close>
  | Eos  \<comment> \<open>\<open>$\<close> without MULTILINE\<close>
  | WordB  \<comment> \<open>\<open>\b\<close>\<close>

text \<open>A position in the subject: the character before it (\<open>None\<close> at the start), the
  text from it on, and the groups captured so far.\<close>

record mstate =
  prev :: "char option"
  rest :: string
  caps :: "nat \<Rightarrow> string option"

definition advance :: "nat \<Rightarrow> mstate \<Rightarrow> mstate" where
  "advance k st =
     st\<lparr>prev := (case rev (take k (rest st)) of [] \<Rightarrow> prev st | c # _ \<Rightarrow> Some c),
        rest := drop k (rest st)\<rparr>"

definition consumed :: "mstate \<Rightarrow> mstate \<Rightarrow> string" where
  \<comment> \<open>the text between an earlier and a later position\<close>
  "consumed st e = take (length (rest st) - length (rest e)) (rest st)"

definition word_opt :: "char option \<Rightarrow> bool" where
  "word_opt c = (case c of None \<Rightarrow> False | Some d \<Rightarrow> is_word d)"

definition next_char :: "mstate \<Rightarrow> char option" where
  "next_char st = (case rest st of [] \<Rightarrow> None | c # _ \<Rightarrow> Some c)"

definition rep_counts :: "bool \<Rightarrow> (char \<Rightarrow> bool) \<Rightarrow> nat \<Rightarrow> nat option \<Rightarrow> string \<Rightarrow> nat list" where
  \<comment> \<open>the repetition counts a quantifier tries, in the order it tries them\<close>
  "rep_counts greedy P lo hi s =
     (let run = length (takeWhile P s);
          top = (case hi of None \<Rightarrow> run | Some h \<Rightarrow> min h run)
      in if greedy then rev [lo ..< Suc top] else [lo ..< Suc top])"

text \<open>\<open>matches r st\<close>: the positions at which a match of \<open>r\<close> from \<open>st\<close> can end, in
  the order in which the backtracking matcher reaches them.\<close>

fun matches :: "regex \<Rightarrow> mstate \<Rightarrow> mstate list" where
  "matches Eps st = [st]"
| "matches (Atom P) st =
     (case rest st of
        [] \<Rightarrow> []
      | c # cs \<Rightarrow> if P c then [st\<lparr>prev := Some c, rest := cs\<rparr>] else [])"
| "matches (Seq r1 r2) st = concat (map (matches r2) (matches r1 st))"
| "matches (Alt r1 r2) st = matches r1 st @ matches r2 st"
| "matches (Rep greedy P lo hi) st =
     map (\<lambda>k. advance k st) (rep_counts greedy P lo hi (rest st))"
| "matches (Group n r) st =
     map (\<lambda>e. e\<lparr>caps := (caps e)(n \<mapsto> consumed st e)\<rparr>) (matches r st)"
| "matches (Lookahead r) st =
     (case matches r st of [] \<Rightarrow> [] | e # _ \<Rightarrow> [st\<lparr>caps := caps e\<rparr>])"
| "matches Bos st = (if prev st = None then [st] else [])"
| "matches Eos st = (if rest st = [] \<or> rest st = [CHR 0x0A] then [st] else [])"
| "matches WordB st =
     (if word_opt (prev st) \<noteq> word_opt (next_char st) then [st] else [])"

definition seqs :: "regex list \<Rightarrow> regex" where
  "seqs rs = foldr Seq rs Eps"

definition chr :: "char \<Rightarrow> regex" where
  "chr c = Atom (\<lambda>d. d = c)"

definition chr_i :: "char \<Rightarrow> regex" where
  \<comment> \<open>a literal character under IGNORECASE\<close>
  "chr_i c = Atom (\<lambda>d. to_lower d = to_lower c)"

definition lit :: "string \<Rightarrow> regex" where
  "lit s = seqs (map chr s)"

definition lit_i :: "string \<Rightarrow> regex" where
  "lit_i s = seqs (map chr_i s)"

record re_match =
  m_start :: nat
  m_text :: string
  m_caps :: "nat \<Rightarrow> string option"
  m_end :: mstate

definition mk_match :: "nat \<Rightarrow> mstate \<Rightarrow> mstate \<Rightarrow> re_match" where
  "mk_match i st e =
     \<lparr>m_start = i, m_text = consumed st e, m_caps = caps e, m_end = e\<rparr>"

text \<open>\<open>re.search\<close>: the first match of the leftmost position that has one.\<close>

fun search_at :: "regex \<Rightarrow> nat \<Rightarrow> char option \<Rightarrow> string \<Rightarrow> re_match option" where
  "search_at r i p [] =
     (case matches r \<lparr>prev = p, rest = [], caps = Map.empty\<rparr> of
        [] \<Rightarrow> None
      | e # _ \<Rightarrow> Some (mk_match i \<lparr>prev = p, rest = [], caps = Map.empty\<rparr> e))"
| "search_at r i p (c # cs) =
     (case matches r \<lparr>prev = p, rest = c # cs, caps = Map.empty\<rparr> of
        [] \<Rightarrow> search_at r (Suc i) (Some c) cs
      | e # _ \<Rightarrow> Some (mk_match i \<lparr>prev = p, rest = c # cs, caps = Map.empty\<rparr> e))"

definition re_search :: "regex \<Rightarrow> string \<Rightarrow> re_match option" where
  "re_search r s = search_at r 0 None s"

definition re_match_start :: "regex \<Rightarrow> string \<Rightarrow> re_match option" where
  \<comment> \<open>\<open>re.match\<close>: a match at the start of the subject only\<close>
  "re_match_start r s =
     (case matches r \<lparr>prev = None, rest = s, caps = Map.empty\<rparr> of
        [] \<Rightarrow> None
      | e # _ \<Rightarrow> Some (mk_match 0 \<lparr>prev = None, rest = s, caps = Map.empty\<rparr> e))"

definition group :: "re_match \<Rightarrow> nat \<Rightarrow> string" where
  \<comment> \<open>the text of a group, for groups that took part in the match\<close>
  "group m n = (case m_caps m n of None \<Rightarrow> [] | Some s \<Rightarrow> s)"

text \<open>\<open>re.findall\<close> for a pattern with one group: group 1 of each match, the scan
  going on from where the last match ended (one character further after an empty match).\<close>

function findall_from :: "regex \<Rightarrow> char option \<Rightarrow> string \<Rightarrow> string list" where
  "findall_from r p s =
     (case search_at r 0 p s of
        None \<Rightarrow> []
      | Some m \<Rightarrow>
          group m 1 #
          (if length (rest (m_end m)) < length s
           then findall_from r (prev (m_end m)) (rest (m_end m))
           else (case drop (m_start m) s of
                   [] \<Rightarrow> []
                 | c # cs \<Rightarrow> findall_from r (Some c) cs)))"
  by pat_completeness auto
termination
proof (relation "measure (\<lambda>(r, p, s). length s)", goal_cases)
  case 1
  show ?case by simp
next
  case (2 r p s m)
  then show ?case by simp
next
  case (3 r p s m c cs)
  have "length (drop (m_start m) s) \<le> length s" by simp
  with 3 show ?case by simp
qed

definition re_findall :: "regex \<Rightarrow> string \<Rightarrow> string list" where
  "re_findall r s = findall_from r None s"

text \<open>\<open>re.sub\<close>: every match, left to right, is replaced; the text between matches is
  kept.\<close>

function sub_from :: "regex \<Rightarrow> string \<Rightarrow> char option \<Rightarrow> string \<Rightarrow> string" where
  "sub_from r repl p s =
     (case matches r \<lparr>prev = p, rest = s, caps = Map.empty\<rparr> of
        [] \<Rightarrow> (case s of [] \<Rightarrow> [] | c # cs \<Rightarrow> c # sub_from r repl (Some c) cs)
      | e # _ \<Rightarrow>
          if length (rest e) < length s
          then repl @ sub_from r repl (prev e) (rest e)
          else repl @ (case s of [] \<Rightarrow> [] | c # cs \<Rightarrow> c # sub_from r repl (Some c) cs))"
  by pat_completeness auto
termination
  by (relation "measure (\<lambda>(r, repl, p, s). length s)") auto

definition re_sub :: "regex \<Rightarrow> string \<Rightarrow> string \<Rightarrow> string" where
  "re_sub r repl s = sub_from r repl None s"


subsection \<open>The language of a pattern\<close>

text \<open>A pattern built without lookahead, anchors and \<open>\b\<close> matches the same strings
  wherever it is tried; \<open>lang\<close> is that set of strings, written without the matcher.
  \<open>rejects Q r\<close> says that no character class of such a pattern accepts a character
  of \<open>Q\<close>.\<close>

fun plain :: "regex \<Rightarrow> bool" where
  "plain Eps = True"
| "plain (Atom P) = True"
| "plain (Seq a b) = (plain a \<and> plain b)"
| "plain (Alt a b) = (plain a \<and> plain b)"
| "plain (Rep g P lo hi) = True"
| "plain (Group n r) = plain r"
| "plain (Lookahead r) = False"
| "plain Bos = False"
| "plain Eos = False"
| "plain WordB = False"

fun lang :: "regex \<Rightarrow> string set" where
  "lang Eps = {[]}"
| "lang (Atom P) = {[c] | c. P c}"
| "lang (Seq a b) = {v @ w | v w. v \<in> lang a \<and> w \<in> lang b}"
| "lang (Alt a b) = lang a \<union> lang b"
| "lang (Rep g P lo hi) =
     {w. list_all P w \<and> lo \<le> length w \<and> (case hi of None \<Rightarrow> True | Some h \<Rightarrow> length w \<le> h)}"
| "lang (Group n r) = lang r"
| "lang (Lookahead r) = {}"
| "lang Bos = {}"
| "lang Eos = {}"
| "lang WordB = {}"

fun rejects :: "(char \<Rightarrow> bool) \<Rightarrow> regex \<Rightarrow> bool" where
  "rejects Q Eps = True"
| "rejects Q (Atom P) = (\<forall>c. Q c \<longrightarrow> \<not> P c)"
| "rejects Q (Seq a b) = (rejects Q a \<and> rejects Q b)"
| "rejects Q (Alt a b) = (rejects Q a \<and> rejects Q b)"
| "rejects Q (Rep g P lo hi) = (\<forall>c. Q c \<longrightarrow> \<not> P c)"
| "rejects Q (Group n r) = rejects Q r"
| "rejects Q (Lookahead r) = False"
| "rejects Q Bos = False"
| "rejects Q Eos = False"
| "rejects Q WordB = False"


section \<open>conversation\_manager.py\<close>

definition STAGES :: "string list" where
  "STAGES = [''greeting'', ''gathering_info'', ''tech_stack'', ''technical_questions'',
             ''closing'']"

definition REQUIRED_FIELDS :: "string list" where
  "REQUIRED_FIELDS = [''full_name'', ''email'', ''phone'', ''years_experience'',
                      ''desired_position'', ''location'']"

text \<open>The dict \<open>candidate_info\<close> has a fixed set of keys: a record, \<open>None\<close> for a field
  not yet collected.\<close>

record profile =
  full_name :: "string option"
  email :: "string option"
  phone :: "string option"
  years_experience :: "string option"
  desired_position :: "string option"
  location :: "string option"
  tech_stack :: "string list"

record manager =
  stage :: string
  candidate_info :: profile
  questions :: "string list"
  answered_count :: int
  missing_fields_asked :: "string list"

definition new_manager :: manager where
  \<comment> \<open>\<open>ConversationManager.__init__\<close>\<close>
  "new_manager =
     \<lparr>stage = ''greeting'',
      candidate_info =
        \<lparr>full_name = None, email = None, phone = None, years_experience = None,
         desired_position = None, location = None, tech_stack = []\<rparr>,
      questions = [], answered_count = 0, missing_fields_asked = []\<rparr>"

definition info_get :: "profile \<Rightarrow> string \<Rightarrow> string option" where
  \<comment> \<open>\<open>info.get(f)\<close> for a scalar field\<close>
  "info_get i f =
     (if f = ''full_name'' then full_name i
      else if f = ''email'' then email i
      else if f = ''phone'' then phone i
      else if f = ''years_experience'' then years_experience i
      else if f = ''desired_position'' then desired_position i
      else if f = ''location'' then location i
      else None)"

subsection \<open>Farewell\<close>

definition farewell_head :: string where
  "farewell_head = [CHR 0xF0, CHR 0x9F, CHR 0x8E, CHR 0x89] @ '' **Thank you, ''"

definition farewell_tail :: string where
  "farewell_tail =
     ''!**'' @ [CHR 0x0A, CHR 0x0A] @
     ''Your profile has been submitted to the TalentScout team. '' @
     ''Here's what happens next:'' @ [CHR 0x0A, CHR 0x0A] @
     ''- '' @ [CHR 0xF0, CHR 0x9F, CHR 0x93, CHR 0xA7] @
     '' You'll receive a confirmation email within **24 hours**'' @ [CHR 0x0A] @
     ''- '' @ [CHR 0xF0, CHR 0x9F, CHR 0x91, CHR 0xA5] @
     '' A recruiter will review your profile within **3'' @
     [CHR 0xE2, CHR 0x80, CHR 0x93] @ ''5 business days**'' @ [CHR 0x0A] @
     ''- '' @ [CHR 0xF0, CHR 0x9F, CHR 0x93, CHR 0x9E] @
     '' If shortlisted, we'll reach out to schedule a detailed interview'' @
     [CHR 0x0A, CHR 0x0A] @
     ''We appreciate your time and wish you the best of luck! '' @
     [CHR 0xF0, CHR 0x9F, CHR 0x9A, CHR 0x80] @ [CHR 0x0A, CHR 0x0A] @
     ''*This session has ended. You can start a new one using the sidebar.*''"

definition get_farewell_message :: "manager \<Rightarrow> py_error + string" where
  "get_farewell_message m =
     (let name = (case full_name (candidate_info m) of
                    None \<Rightarrow> ''there''
                  | Some n \<Rightarrow> if n \<noteq> [] then n else ''there'')
      in if name \<noteq> ''there''
         then (case str_split name of
                 [] \<Rightarrow> Inl IndexError
               | first # _ \<Rightarrow> Inr (farewell_head @ first @ farewell_tail))
         else Inr (farewell_head @ name @ farewell_tail))"

subsection \<open>Info extraction\<close>

definition email_local :: "char \<Rightarrow> bool" where
  \<comment> \<open>\<open>[a-zA-Z0-9._%+\-]\<close>\<close>
  "email_local c = (is_alpha c \<or> is_digit c \<or> c \<in> set ''._%+-'')"

definition email_domain :: "char \<Rightarrow> bool" where
  \<comment> \<open>\<open>[a-zA-Z0-9.\-]\<close>\<close>
  "email_domain c = (is_alpha c \<or> is_digit c \<or> c \<in> set ''.-'')"

definition EMAIL_RE :: regex where
  \<comment> \<open>\<open>[a-zA-Z0-9._%+\-]+@[a-zA-Z0-9.\-]+\.[a-zA-Z]{2,}\<close>\<close>
  "EMAIL_RE =
     seqs [Rep True email_local 1 None, chr CHR ''@'', Rep True email_domain 1 None,
           chr CHR ''.'', Rep True is_alpha 2 None]"

definition phone_char :: "char \<Rightarrow> bool" where
  \<comment> \<open>\<open>[\d\s\-().]\<close>\<close>
  "phone_char c = (is_digit c \<or> is_space c \<or> c \<in> set ''-().'')"

definition PHONE_RE :: regex where
  \<comment> \<open>\<open>(\+?[\d\s\-().]{7,15})\<close>\<close>
  "PHONE_RE =
     Group 1 (seqs [Rep True (\<lambda>c. c = CHR ''+'') 0 (Some 1),
                    Rep True phone_char 7 (Some 15)])"

definition EXP_RE :: regex where
  \<comment> \<open>\<open>(\d+)\s*(years?|yrs?)\<close> with IGNORECASE\<close>
  "EXP_RE =
     seqs [Group 1 (Rep True is_digit 1 None), Rep True is_space 0 None,
           Group 2 (Alt (seqs [lit_i ''year'',
                               Rep True (\<lambda>c. to_lower c = CHR ''s'') 0 (Some 1)])
                        (seqs [lit_i ''yr'',
                               Rep True (\<lambda>c. to_lower c = CHR ''s'') 0 (Some 1)]))]"

definition TECH_KEYWORDS :: "string list" where
  \<comment> \<open>the elements of the set literal, as the source lists them\<close>
  "TECH_KEYWORDS =
     [''python'', ''javascript'', ''typescript'', ''java'', ''c++'', ''c#'', ''go'', ''rust'',
      ''ruby'', ''php'', ''swift'', ''kotlin'', ''scala'', ''r'', ''matlab'',
      ''react'', ''angular'', ''vue'', ''next.js'', ''nuxt'', ''svelte'',
      ''django'', ''flask'', ''fastapi'', ''spring'', ''express'', ''nest.js'',
      ''node.js'', ''nodejs'', ''deno'',
      ''postgresql'', ''mysql'', ''sqlite'', ''mongodb'', ''redis'', ''cassandra'',
      ''elasticsearch'', ''firebase'', ''supabase'',
      ''docker'', ''kubernetes'', ''terraform'', ''ansible'',
      ''aws'', ''gcp'', ''azure'', ''heroku'', ''vercel'',
      ''git'', ''github'', ''gitlab'', ''jira'', ''linux'',
      ''machine learning'', ''ml'', ''deep learning'', ''tensorflow'', ''pytorch'',
      ''pandas'', ''numpy'', ''scikit-learn'', ''spark'', ''hadoop'',
      ''graphql'', ''rest'', ''grpc'', ''kafka'', ''rabbitmq'']"

text \<open>
  \<open>TECH_KEYWORDS\<close> is a Python \<open>set\<close> of strings: the loop \<open>for tech in TECH_KEYWORDS\<close>
  visits every element once, in an order that the language leaves to the hash of the
  strings (which is salted per process). The order of iteration is therefore an argument
  \<open>order\<close> of the model; \<open>iteration_order order\<close> says that it is an order of this set.
\<close>

definition iteration_order :: "string list \<Rightarrow> bool" where
  "iteration_order order = (distinct order \<and> set order = set TECH_KEYWORDS)"

definition keyword_re :: "string \<Rightarrow> regex" where
  \<comment> \<open>\<open>rf"\b{re.escape(tech)}\b"\<close>\<close>
  "keyword_re tech = seqs [WordB, lit tech, WordB]"

definition mentions :: "string \<Rightarrow> string \<Rightarrow> bool" where
  "mentions msg_lower tech = (re_search (keyword_re tech) msg_lower \<noteq> None)"

definition display_name :: "string \<Rightarrow> string" where
  \<comment> \<open>\<open>tech.title() if len(tech) > 3 else tech.upper()\<close>\<close>
  "display_name tech = (if length tech > 3 then str_title tech else str_upper tech)"

definition extract_email :: "string \<Rightarrow> profile \<Rightarrow> profile" where
  "extract_email msg i =
     (if \<not> truthy (email i)
      then (case re_search EMAIL_RE msg of
              None \<Rightarrow> i
            | Some m \<Rightarrow> i\<lparr>email := Some (m_text m)\<rparr>)
      else i)"

definition extract_phone :: "string \<Rightarrow> profile \<Rightarrow> profile" where
  "extract_phone msg i =
     (if \<not> truthy (phone i)
      then (case re_search PHONE_RE msg of
              None \<Rightarrow> i
            | Some m \<Rightarrow>
                (let candidate = str_strip (m_text m)
                 in if count_digits candidate \<ge> 7 then i\<lparr>phone := Some candidate\<rparr> else i))
      else i)"

definition extract_years :: "string \<Rightarrow> profile \<Rightarrow> profile" where
  "extract_years msg i =
     (if \<not> truthy (years_experience i)
      then (case re_search EXP_RE msg of
              None \<Rightarrow> i
            | Some m \<Rightarrow> i\<lparr>years_experience := Some (group m 1 @ '' years'')\<rparr>)
      else i)"

definition extract_tech :: "string list \<Rightarrow> string \<Rightarrow> profile \<Rightarrow> profile" where
  "extract_tech order msg i =
     (let msg_lower = str_lower msg;
          found = map display_name (filter (mentions msg_lower) order)
      in if found \<noteq> []
         then (let existing = set (map str_lower (tech_stack i))
               in i\<lparr>tech_stack :=
                      tech_stack i @ filter (\<lambda>t. str_lower t \<notin> existing) found\<rparr>)
         else i)"

definition extract_and_update_info :: "string list \<Rightarrow> string \<Rightarrow> manager \<Rightarrow> manager" where
  "extract_and_update_info order user_message m =
     (let msg = str_strip user_message
      in m\<lparr>candidate_info :=
             extract_tech order msg
               (extract_years msg (extract_phone msg (extract_email msg (candidate_info m))))\<rparr>)"

subsection \<open>Question parsing\<close>

definition any_char :: "char \<Rightarrow> bool" where
  \<comment> \<open>\<open>.\<close> under DOTALL\<close>
  "any_char c = True"

definition not_newline :: "char \<Rightarrow> bool" where
  \<comment> \<open>\<open>.\<close> without DOTALL\<close>
  "not_newline c = (c \<noteq> CHR 0x0A)"

definition QUESTION_RE :: regex where
  \<comment> \<open>\<open>(?:question\s*\d+[:\.]?\s*)(.+?)(?=question\s*\d+|$)\<close> with IGNORECASE and DOTALL\<close>
  "QUESTION_RE =
     seqs [seqs [lit_i ''question'', Rep True is_space 0 None, Rep True is_digit 1 None,
                 Rep True (\<lambda>c. c \<in> set '':.'') 0 (Some 1), Rep True is_space 0 None],
           Group 1 (Rep False any_char 1 None),
           Lookahead (Alt (seqs [lit_i ''question'', Rep True is_space 0 None,
                                 Rep True is_digit 1 None])
                          Eos)]"

definition NUMBERING_RE :: regex where
  \<comment> \<open>\<open>^\s*[\*\-]?\s*\d+[\.\)]\s+\<close>\<close>
  "NUMBERING_RE =
     seqs [Bos, Rep True is_space 0 None, Rep True (\<lambda>c. c \<in> set ''*-'') 0 (Some 1),
           Rep True is_space 0 None, Rep True is_digit 1 None,
           Atom (\<lambda>c. c \<in> set ''.)''), Rep True is_space 1 None]"

definition NUMBERED_LINE_RE :: regex where
  \<comment> \<open>\<open>^\s*[\*\-]?\s*\d+[\.\)]\s+.{10,}\<close>\<close>
  "NUMBERED_LINE_RE = seqs [NUMBERING_RE, Rep True not_newline 10 None]"

definition replace_newlines :: "string \<Rightarrow> string" where
  \<comment> \<open>\<open>.replace("\n", " ")\<close>\<close>
  "replace_newlines s = map (\<lambda>c. if c = CHR 0x0A then CHR '' '' else c) s"

definition numbered_lines :: "string \<Rightarrow> string list" where
  \<comment> \<open>the fallback of \<open>_parse_questions\<close>\<close>
  "numbered_lines text =
     concat (map (\<lambda>line.
                    if re_match_start NUMBERED_LINE_RE line \<noteq> None
                    then (let clean = str_strip (re_sub NUMBERING_RE [] line)
                          in if clean \<noteq> [] then [clean] else [])
                    else [])
                 (split_on (CHR 0x0A) text))"

definition parse_questions :: "string \<Rightarrow> string list" where
  "parse_questions text =
     (let found = re_findall QUESTION_RE text;
          qs = map (\<lambda>q. replace_newlines (str_strip q))
                   (filter (\<lambda>q. length (str_strip q) > 10) found)
      in take 5 (if qs = [] then numbered_lines text else qs))"

subsection \<open>Stage transitions\<close>

definition advance_stage :: "string \<Rightarrow> manager \<Rightarrow> manager" where
  "advance_stage new_stage m =
     (case list_index STAGES (stage m) of
        Inl e \<Rightarrow> m
      | Inr current_idx \<Rightarrow>
          (case list_index STAGES new_stage of
             Inl e \<Rightarrow> m
           | Inr new_idx \<Rightarrow> if new_idx > current_idx then m\<lparr>stage := new_stage\<rparr> else m))"

definition greeting_keywords :: "string list" where
  "greeting_keywords = [''hello'', ''hi'', ''hey'', ''help'']"

definition transition_signals :: "string list" where
  "transition_signals =
     [''technical question'', ''few questions'', ''based on your stack'',
      ''assess your'', ''let's test'', ''now ask'']"

definition stage_rules :: "string \<Rightarrow> string \<Rightarrow> manager \<Rightarrow> manager" where
  \<comment> \<open>the \<open>if\<close>/\<open>elif\<close> chain on the stage in \<open>process_ai_response\<close>\<close>
  "stage_rules ai_response user_message m =
     (let inf = candidate_info m in
      if stage m = ''greeting'' then
        (if length (str_split user_message) \<le> 5 \<and>
            \<not> list_ex (\<lambda>kw. str_contains (str_lower user_message) kw) greeting_keywords
         then advance_stage ''gathering_info'' m
         else if truthy (full_name inf) then advance_stage ''gathering_info'' m
         else m)
      else if stage m = ''gathering_info'' then
        (if list_all (\<lambda>f. truthy (info_get inf f)) REQUIRED_FIELDS
         then advance_stage ''tech_stack'' m
         else m)
      else if stage m = ''tech_stack'' then
        (if tech_stack inf \<noteq> [] \<and> length (tech_stack inf) \<ge> 1
         then (if list_ex (\<lambda>sig. str_contains (str_lower ai_response) sig) transition_signals
               then advance_stage ''technical_questions'' m
               else m)
         else m)
      else if stage m = ''technical_questions'' then
        (let m1 = (if questions m = [] then m\<lparr>questions := parse_questions ai_response\<rparr>
                   else m);
             m2 = (if questions m1 \<noteq> [] \<and> length user_message > 10
                   then m1\<lparr>answered_count :=
                             min (answered_count m1 + 1) (int (length (questions m1)))\<rparr>
                   else m1)
         in if answered_count m2 \<ge> int (length (questions m2)) \<and> questions m2 \<noteq> []
            then advance_stage ''closing'' m2
            else m2)
      else m)"

definition name_like :: "string list \<Rightarrow> bool" where
  \<comment> \<open>\<open>1 <= len(words) <= 4 and all(w[0].isupper() or w.isalpha() for w in words if w)\<close>\<close>
  "name_like words =
     (1 \<le> length words \<and> length words \<le> 4 \<and>
      list_all (\<lambda>w. case w of [] \<Rightarrow> True | c # _ \<Rightarrow> is_upper c \<or> str_isalpha w) words)"

definition process_ai_response :: "string \<Rightarrow> string \<Rightarrow> manager \<Rightarrow> manager" where
  "process_ai_response ai_response user_message m =
     (let stage0 = stage m;
          m' = stage_rules ai_response user_message m
      in if \<not> truthy (full_name (candidate_info m')) \<and>
            (stage0 = ''greeting'' \<or> stage0 = ''gathering_info'')
         then (if name_like (str_split (str_strip user_message))
               then m'\<lparr>candidate_info :=
                         (candidate_info m')\<lparr>full_name :=
                                                 Some (str_title (str_strip user_message))\<rparr>\<rparr>
               else m')
         else m')"


section \<open>app.py\<close>

text \<open>
  The session state, with the two collaborators as logs: \<open>saved\<close> holds the arguments of
  every call of \<open>DataHandler.save_session\<close>, \<open>ai_requests\<close> the user messages of every
  call of \<open>get_ai_response\<close>. What the completion service answers is not decided by this
  program: each turn takes the answer as an argument.
\<close>

type_synonym message = "string \<times> string"  \<comment> \<open>role, content\<close>

record session =
  messages :: "message list"
  mgr :: manager
  conversation_ended :: bool
  saved :: "(profile \<times> message list) list"
  ai_requests :: "string list"

definition new_session :: session where
  "new_session =
     \<lparr>messages = [], mgr = new_manager, conversation_ended = False, saved = [],
      ai_requests = []\<rparr>"

definition EXIT_KEYWORDS :: "string list" where
  "EXIT_KEYWORDS = [''exit'', ''quit'', ''bye'', ''goodbye'', ''end'', ''stop'']"

definition wants_exit :: "string \<Rightarrow> bool" where
  \<comment> \<open>\<open>any(kw in user_input.lower().split() for kw in EXIT_KEYWORDS)\<close>\<close>
  "wants_exit user_input =
     list_ex (\<lambda>kw. kw \<in> set (str_split (str_lower user_input))) EXIT_KEYWORDS"

text \<open>\<open>handle_user_input\<close> returns the reply, or the exception that ends the call,
  together with the session state as the call leaves it.\<close>

definition handle_user_input ::
  "string list \<Rightarrow> string \<Rightarrow> string \<Rightarrow> session \<Rightarrow> (py_error + string) \<times> session" where
  "handle_user_input order user_input completion s =
     (if wants_exit user_input
      then (let s1 = s\<lparr>conversation_ended := True\<rparr>
            in case get_farewell_message (mgr s1) of
                 Inl e \<Rightarrow> (Inl e, s1)
               | Inr farewell \<Rightarrow>
                   (Inr farewell,
                    s1\<lparr>saved := saved s1 @ [(candidate_info (mgr s1), messages s1)]\<rparr>))
      else (let m1 = extract_and_update_info order user_input (mgr s);
                response = completion;
                m2 = process_ai_response response user_input m1
            in (Inr response,
                s\<lparr>mgr := m2, ai_requests := ai_requests s @ [user_input]\<rparr>)))"

text \<open>A conversation: one call of \<open>handle_user_input\<close> per turn, each turn an utterance
  and the completion the service gives for it.\<close>

fun run_turns :: "string list \<Rightarrow> (string \<times> string) list \<Rightarrow> session \<Rightarrow> session" where
  "run_turns order [] s = s"
| "run_turns order ((user_input, completion) # ts) s =
     run_turns order ts (snd (handle_user_input order user_input completion s))"

subsection \<open>The order of the stages\<close>

definition stage_le :: "string \<Rightarrow> string \<Rightarrow> bool" where
  \<comment> \<open>the ordinal of \<open>a\<close> in \<open>STAGES\<close> is at most that of \<open>b\<close>; a value that is no stage
      compares with itself only\<close>
  "stage_le a b =
     (case (list_index STAGES a, list_index STAGES b) of
        (Inr i, Inr j) \<Rightarrow> i \<le> j
      | _ \<Rightarrow> a = b)"

definition stage_lt :: "string \<Rightarrow> string \<Rightarrow> bool" where
  "stage_lt a b =
     (case (list_index STAGES a, list_index STAGES b) of
        (Inr i, Inr j) \<Rightarrow> i < j
      | _ \<Rightarrow> False)"


subsection \<open>Sessions used as examples\<close>


definition tq_manager :: manager where
  \<comment> \<open>a manager that has just entered the stage technical\_questions\<close>
  "tq_manager = new_manager\<lparr>stage := ''technical_questions''\<rparr>"

definition tq_session :: session where
  "tq_session = new_session\<lparr>mgr := tq_manager\<rparr>"


definition scenario_utterance :: string where
  "scenario_utterance = ''I have 5 years of experience with Python and Docker''"


subsection \<open>The phone number in the specification's words\<close>




section \<open>The question parser on the specification's example\<close>

text \<open>
  C8. The question parser applied to
  \<open>"Question 1: What is a closure? Question 2: Explain REST."\<close> returns exactly the
  two questions \<open>"What is a closure?"\<close> and \<open>"Explain REST."\<close>, in that order.
\<close>

theorem parse_questions_example:
  "parse_questions ''Question 1: What is a closure? Question 2: Explain REST.'' =
     [''What is a closure?'', ''Explain REST.'']"
  by code_simp


section \<open>The stage never moves back\<close>

lemma stage_le_refl: "stage_le a a"
  by (simp add: stage_le_def split: sum.splits)

lemma stage_lt_imp_le: "stage_lt a b \<Longrightarrow> stage_le a b"
  by (auto simp: stage_le_def stage_lt_def split: sum.splits)

lemma stage_le_trans: "stage_le a b \<Longrightarrow> stage_le b c \<Longrightarrow> stage_le a c"
  by (auto simp: stage_le_def split: sum.splits)

lemma stage_advance_stage:
  "stage (advance_stage new_stage m) = (if stage_lt (stage m) new_stage then new_stage else stage m)"
  by (auto simp: advance_stage_def stage_lt_def split: sum.splits)

lemma advance_stage_le: "stage_le (stage m) (stage (advance_stage new_stage m))"
  by (simp add: stage_advance_stage stage_le_refl stage_lt_imp_le)

lemma advance_stage_le': "stage m' = stage m \<Longrightarrow> stage_le (stage m) (stage (advance_stage new_stage m'))"
  using advance_stage_le [of m' new_stage] by simp

lemma stage_rules_le: "stage_le (stage m) (stage (stage_rules ai u m))"
  unfolding stage_rules_def Let_def
  apply (intro conjI impI advance_stage_le advance_stage_le' stage_le_refl | simp only: if_split [where P="\<lambda>x. stage_le (stage m) (stage x)"])+
  apply (simp_all add: stage_le_refl split: if_splits)
  done


lemma process_ai_response_stage:
  "stage (process_ai_response ai u m) = stage (stage_rules ai u m)"
  by (simp add: process_ai_response_def Let_def)

lemma extract_stage: "stage (extract_and_update_info order u m) = stage m"
  by (simp add: extract_and_update_info_def Let_def)

lemma process_ai_response_le: "stage_le (stage m) (stage (process_ai_response ai u m))"
  by (simp only: process_ai_response_stage stage_rules_le)

lemma handle_user_input_mgr:
  "mgr (snd (handle_user_input order u c s)) =
     (if wants_exit u then mgr s
      else process_ai_response c u (extract_and_update_info order u (mgr s)))"
  by (simp add: handle_user_input_def Let_def split: sum.splits)

lemma handle_user_input_le:
  "stage_le (stage (mgr s)) (stage (mgr (snd (handle_user_input order u c s))))"
proof (cases "wants_exit u")
  case True
  then show ?thesis by (simp only: handle_user_input_mgr if_True stage_le_refl)
next
  case False
  have "stage_le (stage (extract_and_update_info order u (mgr s)))
          (stage (process_ai_response c u (extract_and_update_info order u (mgr s))))"
    by (rule process_ai_response_le)
  with False show ?thesis by (simp only: handle_user_input_mgr if_False extract_stage)
qed

lemma run_turns_le: "stage_le (stage (mgr s)) (stage (mgr (run_turns order ts s)))"
proof (induction ts arbitrary: s)
  case Nil
  show ?case by (simp add: stage_le_refl)
next
  case (Cons t ts)
  obtain u c where t: "t = (u, c)" by (cases t)
  have "stage_le (stage (mgr s)) (stage (mgr (snd (handle_user_input order u c s))))"
    by (rule handle_user_input_le)
  moreover have "stage_le (stage (mgr (snd (handle_user_input order u c s))))
      (stage (mgr (run_turns order ts (snd (handle_user_input order u c s)))))"
    by (rule Cons.IH)
  ultimately show ?case
    unfolding t run_turns.simps by (rule stage_le_trans)
qed

text \<open>
  C1. The ordinal of the stage (in the order greeting, gathering\_info, tech\_stack,
  technical\_questions, closing) never decreases: a call of \<open>_advance_stage\<close> either
  leaves the manager as it is (a target that is not strictly later, or that is no
  stage at all, is ignored without an error) or moves to a strictly later stage; one
  call of \<open>process_ai_response\<close> and every sequence of turns leave the ordinal at
  least as large as it was.
\<close>

theorem stage_monotone:
  "(advance_stage new_stage m = m \<or> stage_lt (stage m) (stage (advance_stage new_stage m)))
   \<and> stage_le (stage m) (stage (process_ai_response ai u m))
   \<and> stage_le (stage (mgr s)) (stage (mgr (run_turns order ts s)))"
proof -
  have "advance_stage new_stage m = m \<or> stage_lt (stage m) (stage (advance_stage new_stage m))"
    by (auto simp: advance_stage_def stage_lt_def split: sum.splits)
  then show ?thesis
    using process_ai_response_le run_turns_le by blast
qed


section \<open>Leaving the greeting stage\<close>









section \<open>Ending the session\<close>









section \<open>The question list\<close>

lemma questions_advance_stage [simp]: "questions (advance_stage n m) = questions m"
  by (simp add: advance_stage_def split: sum.splits)

lemma answered_advance_stage [simp]: "answered_count (advance_stage n m) = answered_count m"
  by (simp add: advance_stage_def split: sum.splits)

lemma questions_process:
  "questions (process_ai_response ai u m) = questions (stage_rules ai u m)"
  by (simp add: process_ai_response_def Let_def)

lemma answered_process:
  "answered_count (process_ai_response ai u m) = answered_count (stage_rules ai u m)"
  by (simp add: process_ai_response_def Let_def)

lemma questions_stage_rules:
  "questions (stage_rules ai u m) =
     (if stage m = ''technical_questions'' \<and> questions m = [] then parse_questions ai
      else questions m)"
  by (simp add: stage_rules_def Let_def)

lemma answered_stage_rules_first:
  assumes "stage m = ''technical_questions''" "questions m = []"
  shows "answered_count (stage_rules ai u m) =
     (if parse_questions ai \<noteq> [] \<and> length u > 10
      then min (answered_count m + 1) (int (length (parse_questions ai)))
      else answered_count m)"
  using assms by (simp add: stage_rules_def Let_def)

lemma extract_keeps:
  "stage (extract_and_update_info order u m) = stage m"
  "questions (extract_and_update_info order u m) = questions m"
  "answered_count (extract_and_update_info order u m) = answered_count m"
  by (simp_all add: extract_and_update_info_def Let_def)

text \<open>
  C10. On the turn in which the question list is first parsed non-empty (stage
  technical\_questions, no questions and no answers counted before the turn), an
  utterance of more than 10 characters, the one that prompted the questions, is
  already counted as an answer: \<open>answered_count\<close> is 1 after that same turn.
\<close>

theorem first_questions_count_prompt:
  assumes "stage (mgr s) = ''technical_questions''"
    and "questions (mgr s) = []"
    and "answered_count (mgr s) = 0"
    and "\<not> wants_exit u"
    and "parse_questions completion \<noteq> []"
    and "length u > 10"
  shows "questions (mgr (snd (handle_user_input order u completion s))) = parse_questions completion
       \<and> answered_count (mgr (snd (handle_user_input order u completion s))) = 1"
proof -
  let ?m = "extract_and_update_info order u (mgr s)"
  have m: "stage ?m = ''technical_questions''" "questions ?m = []" "answered_count ?m = 0"
    using assms by (simp_all add: extract_keeps)
  have "1 \<le> length (parse_questions completion)"
    using assms(5) by (cases "parse_questions completion") simp_all
  then have "min (1::int) (int (length (parse_questions completion))) = 1" by simp
  then show ?thesis
    using m assms(4,5,6)
    by (simp add: handle_user_input_mgr questions_process answered_process
          questions_stage_rules answered_stage_rules_first)
qed

theorem first_questions_count_prompt_witness:
  "stage (mgr tq_session) = ''technical_questions'' \<and> questions (mgr tq_session) = [] \<and>
   answered_count (mgr tq_session) = 0 \<and> \<not> wants_exit ''I am ready for the questions'' \<and>
   parse_questions ''Question 1: What is a closure in Python?'' \<noteq> [] \<and>
   length ''I am ready for the questions'' > 10 \<and>
   answered_count (mgr (snd (handle_user_input TECH_KEYWORDS ''I am ready for the questions''
     ''Question 1: What is a closure in Python?'' tq_session))) = 1"
proof -
  have h: "stage (mgr tq_session) = ''technical_questions''" "questions (mgr tq_session) = []"
    "answered_count (mgr tq_session) = 0"
    by (simp_all add: tq_session_def tq_manager_def new_manager_def)
  have e: "\<not> wants_exit ''I am ready for the questions''" by code_simp
  have p: "parse_questions ''Question 1: What is a closure in Python?'' \<noteq> []" by code_simp
  have l: "length ''I am ready for the questions'' > 10" by simp
  from first_questions_count_prompt [OF h e p l, of TECH_KEYWORDS] h e p l show ?thesis
    by blast
qed

lemma questions_handle:
  "questions (mgr (snd (handle_user_input order u c s))) =
     (if \<not> wants_exit u \<and> stage (mgr s) = ''technical_questions'' \<and> questions (mgr s) = []
      then parse_questions c else questions (mgr s))"
  by (simp add: handle_user_input_mgr questions_process questions_stage_rules extract_keeps)

lemma questions_run_turns:
  "questions (mgr s) \<noteq> [] \<Longrightarrow> questions (mgr (run_turns order ts s)) = questions (mgr s)"
proof (induction ts arbitrary: s)
  case Nil
  show ?case by simp
next
  case (Cons t ts)
  obtain u c where t: "t = (u, c)" by (cases t)
  have q: "questions (mgr (snd (handle_user_input order u c s))) = questions (mgr s)"
    using Cons.prems by (simp add: questions_handle)
  with Cons.prems Cons.IH [of "snd (handle_user_input order u c s)"] show ?case
    by (simp add: t)
qed

text \<open>
  C6, as the code has it. A turn sets the question list only while the stage is
  technical\_questions and the list is still empty (and the utterance holds no exit
  keyword), and then to the list parsed from that turn's model response; that list may
  be empty, and then a later response fills it. Once the list is non-empty, no
  sequence of turns changes it.
\<close>

theorem questions_set_once:
  "questions (mgr (snd (handle_user_input order u c s))) =
     (if \<not> wants_exit u \<and> stage (mgr s) = ''technical_questions'' \<and> questions (mgr s) = []
      then parse_questions c else questions (mgr s))
   \<and> (questions (mgr s) \<noteq> [] \<longrightarrow>
        questions (mgr (run_turns order ts s)) = questions (mgr s))"
  using questions_handle questions_run_turns by blast

theorem questions_set_once_witness:
  "questions (mgr (snd (handle_user_input TECH_KEYWORDS ''I am ready''
      ''Question 1: What is a closure in Python?'' tq_session)))
     = [''What is a closure in Python?''] \<and>
   questions (mgr (run_turns TECH_KEYWORDS
      [(''It captures variables'', ''Question 1: Explain decorators in Python.'')]
      (snd (handle_user_input TECH_KEYWORDS ''I am ready''
         ''Question 1: What is a closure in Python?'' tq_session))))
     = [''What is a closure in Python?'']"
proof -
  let ?s = "snd (handle_user_input TECH_KEYWORDS ''I am ready''
      ''Question 1: What is a closure in Python?'' tq_session)"
  have a: "questions (mgr ?s) = [''What is a closure in Python?'']" by code_simp
  then have "questions (mgr ?s) \<noteq> []" by simp
  with questions_set_once [of TECH_KEYWORDS "''I am ready''"
      "''Question 1: What is a closure in Python?''" ?s
      "[(''It captures variables'', ''Question 1: Explain decorators in Python.'')]"]
  have "questions (mgr (run_turns TECH_KEYWORDS
      [(''It captures variables'', ''Question 1: Explain decorators in Python.'')] ?s))
     = questions (mgr ?s)"
    by blast
  with a show ?thesis by simp
qed

text \<open>
  The list need not come from the first response processed in the stage
  technical\_questions: here that response holds no question, the list stays empty,
  and the second response fills it.
\<close>

theorem questions_not_from_first_response:
  "parse_questions ''Sure, give me a moment.'' = [] \<and>
   questions (mgr (run_turns TECH_KEYWORDS
      [(''I am ready'', ''Sure, give me a moment.''),
       (''still here'', ''Question 1: What is a closure in Python?'')] tq_session))
     = [''What is a closure in Python?'']"
  by code_simp


section \<open>Tech-stack extraction\<close>

lemma tech_stack_extract:
  "tech_stack (candidate_info (extract_and_update_info order u m)) =
   tech_stack (extract_tech order (str_strip u) (candidate_info m))"
  by (simp add: extract_and_update_info_def Let_def extract_tech_def extract_years_def
      extract_phone_def extract_email_def split: option.splits)

lemma tech_stack_extract_tech:
  "tech_stack (extract_tech order msg i) =
   tech_stack i @
   filter (\<lambda>t. str_lower t \<notin> set (map str_lower (tech_stack i)))
     (map display_name (filter (mentions (str_lower msg)) order))"
  by (simp add: extract_tech_def Let_def)

lemma extract_tech_again:
  assumes "set o2 \<subseteq> set o1"
  shows "tech_stack (extract_tech o2 msg (extract_tech o1 msg i)) =
         tech_stack (extract_tech o1 msg i)"
proof -
  let ?found = "\<lambda>order. map display_name (filter (mentions (str_lower msg)) order)"
  let ?ts1 = "tech_stack (extract_tech o1 msg i)"
  have "str_lower t \<in> set (map str_lower ?ts1)" if "t \<in> set (?found o2)" for t
  proof -
    from that assms have t1: "t \<in> set (?found o1)" by auto
    show ?thesis
    proof (cases "str_lower t \<in> set (map str_lower (tech_stack i))")
      case True
      then show ?thesis by (auto simp: tech_stack_extract_tech)
    next
      case False
      with t1 have "t \<in> set ?ts1" by (simp add: tech_stack_extract_tech)
      then show ?thesis by simp
    qed
  qed
  then have "filter (\<lambda>t. str_lower t \<notin> set (map str_lower ?ts1)) (?found o2) = []"
    by (simp add: filter_empty_conv)
  then show ?thesis
    using tech_stack_extract_tech [of o2 msg "extract_tech o1 msg i"] by simp
qed

lemma lower_display_name: "list_all (\<lambda>k. str_lower (display_name k) = k) TECH_KEYWORDS"
  by code_simp

lemma lower_display_name':
  "k \<in> set TECH_KEYWORDS \<Longrightarrow> str_lower (display_name k) = k"
  using lower_display_name by (simp add: list_all_iff)

lemma distinct_TECH_KEYWORDS: "distinct TECH_KEYWORDS"
  by code_simp


lemma distinct_added:
  assumes "distinct order" "set order \<subseteq> set TECH_KEYWORDS"
    and "distinct (map str_lower (tech_stack i))"
  shows "distinct (map str_lower (tech_stack (extract_tech order msg i)))"
proof -
  let ?hits = "filter (mentions (str_lower msg)) order"
  let ?old = "set (map str_lower (tech_stack i))"
  have "map (\<lambda>k. str_lower (display_name k)) ?hits = ?hits"
  proof (rule map_idI)
    fix k assume "k \<in> set ?hits"
    with assms(2) have "k \<in> set TECH_KEYWORDS" by auto
    then show "str_lower (display_name k) = k" by (rule lower_display_name')
  qed
  then have low: "map str_lower (map display_name ?hits) = ?hits"
    by (simp add: comp_def)
  have "map str_lower (filter (\<lambda>t. str_lower t \<notin> ?old) (map display_name ?hits))
        = filter (\<lambda>k. k \<notin> ?old) (map str_lower (map display_name ?hits))"
    by (simp add: filter_map comp_def)
  also have "\<dots> = filter (\<lambda>k. k \<notin> ?old) ?hits" by (simp only: low)
  finally have new: "map str_lower (filter (\<lambda>t. str_lower t \<notin> ?old) (map display_name ?hits))
        = filter (\<lambda>k. k \<notin> ?old) ?hits" .
  have "distinct (filter (\<lambda>k. k \<notin> ?old) ?hits)" using assms(1) by simp
  moreover have "set (filter (\<lambda>k. k \<notin> ?old) ?hits) \<inter> ?old = {}" by auto
  ultimately show ?thesis
    using assms(3) unfolding tech_stack_extract_tech map_append new
    by (simp add: Int_commute)
qed

text \<open>
  C4. Tech-stack extraction is idempotent: for every utterance and every profile,
  extracting twice from the same utterance leaves \<open>tech_stack\<close> exactly as extracting
  once does, whatever the order in which the keyword set is iterated in either call;
  and no entry is added whose lower-cased form is already there: a \<open>tech_stack\<close>
  without case-insensitive duplicates stays without them.
\<close>

theorem tech_stack_idempotent:
  assumes "iteration_order o1" and "iteration_order o2"
  shows "tech_stack (candidate_info
           (extract_and_update_info o2 u (extract_and_update_info o1 u m)))
         = tech_stack (candidate_info (extract_and_update_info o1 u m))
       \<and> (distinct (map str_lower (tech_stack (candidate_info m))) \<longrightarrow>
            distinct (map str_lower
              (tech_stack (candidate_info (extract_and_update_info o1 u m)))))"
proof -
  have sub: "set o2 \<subseteq> set o1" "distinct o1" "set o1 \<subseteq> set TECH_KEYWORDS"
    using assms by (simp_all add: iteration_order_def)
  let ?i1 = "candidate_info (extract_and_update_info o1 u m)"
  have "tech_stack (candidate_info (extract_and_update_info o2 u (extract_and_update_info o1 u m)))
        = tech_stack (extract_tech o2 (str_strip u) ?i1)"
    by (rule tech_stack_extract)
  also have "?i1 = extract_tech o1 (str_strip u)
        (extract_years (str_strip u) (extract_phone (str_strip u)
           (extract_email (str_strip u) (candidate_info m))))"
    by (simp add: extract_and_update_info_def Let_def)
  also have "tech_stack (extract_tech o2 (str_strip u) \<dots>) = tech_stack \<dots>"
    using sub(1) by (rule extract_tech_again)
  finally have one: "tech_stack (candidate_info
           (extract_and_update_info o2 u (extract_and_update_info o1 u m)))
         = tech_stack (candidate_info (extract_and_update_info o1 u m))"
    by (simp add: extract_and_update_info_def Let_def)
  have two: "distinct (map str_lower (tech_stack (candidate_info (extract_and_update_info o1 u m))))"
    if "distinct (map str_lower (tech_stack (candidate_info m)))"
    using distinct_added [OF sub(2,3) that, of "str_strip u"]
    by (simp only: tech_stack_extract)
  from one two show ?thesis by blast
qed


lemma iteration_order_source: "iteration_order TECH_KEYWORDS"
  by (simp add: iteration_order_def distinct_TECH_KEYWORDS)

lemma iteration_order_rev: "iteration_order (rev TECH_KEYWORDS)"
  by (simp add: iteration_order_def distinct_TECH_KEYWORDS)

theorem tech_stack_idempotent_witness:
  "iteration_order TECH_KEYWORDS \<and>
   tech_stack (candidate_info (extract_and_update_info TECH_KEYWORDS ''Python, then python again''
      (extract_and_update_info TECH_KEYWORDS ''Python, then python again'' new_manager)))
     = [''Python''] \<and>
   tech_stack (candidate_info
      (extract_and_update_info TECH_KEYWORDS ''Python, then python again'' new_manager))
     = [''Python'']"
proof -
  have a: "tech_stack (candidate_info
      (extract_and_update_info TECH_KEYWORDS ''Python, then python again'' new_manager))
     = [''Python'']"
    by code_simp
  from tech_stack_idempotent [OF iteration_order_source iteration_order_source,
      of "''Python, then python again''" new_manager] a
  show ?thesis by (simp add: iteration_order_source)
qed


subsection \<open>The specification's scenario\<close>

lemma two_element_list:
  assumes "distinct xs" "set xs = {a, b}" "a \<noteq> b"
  shows "xs = [a, b] \<or> xs = [b, a]"
proof -
  have "length xs = card (set xs)" using assms(1) by (simp add: distinct_card)
  also have "\<dots> = 2" using assms(2,3) by simp
  finally obtain x y where xy: "xs = [x, y]"
    by (cases xs; cases "tl xs"; cases "tl (tl xs)") auto
  with assms show ?thesis by (auto simp: doubleton_eq_iff)
qed

lemma scenario_hits:
  "filter (mentions (str_lower (str_strip scenario_utterance))) TECH_KEYWORDS
     = [''python'', ''docker'']"
  by code_simp

lemma scenario_scalars:
  "extract_years (str_strip scenario_utterance)
     (extract_phone (str_strip scenario_utterance)
        (extract_email (str_strip scenario_utterance) (candidate_info new_manager)))
   = (candidate_info new_manager)\<lparr>years_experience := Some ''5 years''\<rparr>"
  by code_simp

lemma scenario_names:
  "display_name ''python'' = ''Python''" "display_name ''docker'' = ''Docker''"
  by code_simp+

lemma scenario_hits_order:
  assumes "iteration_order order"
  shows "filter (mentions (str_lower (str_strip scenario_utterance))) order
         = filter (\<lambda>k. k \<in> {''python'', ''docker''}) order"
proof (rule filter_cong [OF refl])
  fix k assume "k \<in> set order"
  then have k: "k \<in> set TECH_KEYWORDS" using assms by (simp add: iteration_order_def)
  have "set (filter (mentions (str_lower (str_strip scenario_utterance))) TECH_KEYWORDS)
        = {''python'', ''docker''}"
    by (simp only: scenario_hits) simp
  with k show "mentions (str_lower (str_strip scenario_utterance)) k
        = (k \<in> {''python'', ''docker''})"
    by (auto simp del: insert_iff)
qed

lemma python_docker_in: "''python'' \<in> set TECH_KEYWORDS" "''docker'' \<in> set TECH_KEYWORDS"
  by code_simp+

text \<open>
  C3, as the code has it. From an empty profile, extraction on
  \<open>"I have 5 years of experience with Python and Docker"\<close> sets \<open>years_experience\<close> to
  exactly \<open>"5 years"\<close>, leaves the other scalar fields absent, and appends exactly the
  two entries \<open>Python\<close> and \<open>Docker\<close> to \<open>tech_stack\<close>, in the order in which the
  keyword set is iterated: either order can result, and the order of first mention in
  the utterance plays no part.
\<close>

theorem scenario_extraction:
  assumes "iteration_order order"
  shows "candidate_info (extract_and_update_info order scenario_utterance new_manager) =
           (candidate_info new_manager)
             \<lparr>years_experience := Some ''5 years'',
              tech_stack := map display_name
                 (filter (\<lambda>k. k \<in> {''python'', ''docker''}) order)\<rparr>
       \<and> (tech_stack (candidate_info
              (extract_and_update_info order scenario_utterance new_manager))
            = [''Python'', ''Docker'']
          \<or> tech_stack (candidate_info
              (extract_and_update_info order scenario_utterance new_manager))
            = [''Docker'', ''Python''])"
proof -
  let ?hits = "filter (\<lambda>k. k \<in> {''python'', ''docker''}) order"
  have d: "distinct ?hits" using assms by (simp add: iteration_order_def)
  have "set ?hits = {''python'', ''docker''}"
    using assms python_docker_in by (auto simp: iteration_order_def)
  with d have hits: "?hits = [''python'', ''docker''] \<or> ?hits = [''docker'', ''python'']"
    by (intro two_element_list) simp_all
  then have ne: "map display_name ?hits \<noteq> []" by auto
  have ts0: "tech_stack (candidate_info new_manager) = []" by (simp add: new_manager_def)
  have main: "candidate_info (extract_and_update_info order scenario_utterance new_manager) =
           (candidate_info new_manager)
             \<lparr>years_experience := Some ''5 years'', tech_stack := map display_name ?hits\<rparr>"
    using ne
    by (simp add: extract_and_update_info_def Let_def scenario_scalars extract_tech_def
          scenario_hits_order [OF assms] ts0 del: insert_iff)
  from hits have "map display_name ?hits = [''Python'', ''Docker'']
      \<or> map display_name ?hits = [''Docker'', ''Python'']"
    by (auto simp: scenario_names)
  with main show ?thesis by (simp del: insert_iff)
qed

theorem scenario_extraction_witness:
  "iteration_order TECH_KEYWORDS \<and>
   tech_stack (candidate_info
      (extract_and_update_info TECH_KEYWORDS scenario_utterance new_manager))
     = [''Python'', ''Docker''] \<and>
   years_experience (candidate_info
      (extract_and_update_info TECH_KEYWORDS scenario_utterance new_manager))
     = Some ''5 years''"
proof -
  have a: "filter (\<lambda>k. k \<in> {''python'', ''docker''}) TECH_KEYWORDS = [''python'', ''docker'']"
    by code_simp
  from scenario_extraction [OF iteration_order_source] show ?thesis
    by (simp add: a scenario_names iteration_order_source del: insert_iff)
qed

text \<open>
  With an iteration order that reaches \<open>docker\<close> before \<open>python\<close>, the entries are
  appended as Docker, Python.
\<close>

theorem scenario_order_not_preserved:
  "iteration_order (rev TECH_KEYWORDS) \<and>
   tech_stack (candidate_info
      (extract_and_update_info (rev TECH_KEYWORDS) scenario_utterance new_manager))
     = [''Docker'', ''Python'']"
proof -
  have "tech_stack (candidate_info
      (extract_and_update_info (rev TECH_KEYWORDS) scenario_utterance new_manager))
     = [''Docker'', ''Python'']"
    by code_simp
  then show ?thesis using iteration_order_rev by simp
qed

section \<open>The matcher against the language of a pattern\<close>

lemma rep_counts_set:
  "k \<in> set (rep_counts g P lo hi s) \<longleftrightarrow>
     lo \<le> k \<and> k \<le> length (takeWhile P s) \<and> (case hi of None \<Rightarrow> True | Some h \<Rightarrow> k \<le> h)"
  by (auto simp: rep_counts_def Let_def split: option.splits)

lemma rest_advance [simp]: "rest (advance k st) = drop k (rest st)"
  by (simp add: advance_def)

lemma caps_advance [simp]: "caps (advance k st) = caps st"
  by (simp add: advance_def)

lemma take_run_all:
  assumes "k \<le> length (takeWhile P s)"
  shows "list_all P (take k s)" and "length (take k s) = k"
proof -
  have "take k s = take k (takeWhile P s)"
    using assms by (metis append_eq_conv_conj takeWhile_dropWhile_id take_append take_all_iff
        diff_is_0_eq take_0 append_Nil2 min.absorb2 take_take)
  then have "set (take k s) \<subseteq> set (takeWhile P s)" by (metis set_take_subset)
  then show "list_all P (take k s)" by (auto simp: list_all_iff dest: set_takeWhileD)
  have "length (takeWhile P s) \<le> length s" by (rule length_takeWhile_le)
  with assms show "length (take k s) = k" by simp
qed

lemma matches_sound:
  "plain r \<Longrightarrow> e \<in> set (matches r st) \<Longrightarrow> \<exists>w. w \<in> lang r \<and> rest st = w @ rest e"
proof (induction r arbitrary: st e)
  case Eps
  then show ?case by simp
next
  case (Atom P)
  then show ?case by (auto split: list.splits if_splits)
next
  case (Seq r1 r2)
  from Seq.prems obtain e1 where e1: "e1 \<in> set (matches r1 st)" "e \<in> set (matches r2 e1)"
    by auto
  from Seq.IH(1) [OF _ e1(1)] Seq.prems(1) obtain v where v: "v \<in> lang r1" "rest st = v @ rest e1"
    by auto
  from Seq.IH(2) [OF _ e1(2)] Seq.prems(1) obtain w where w: "w \<in> lang r2" "rest e1 = w @ rest e"
    by auto
  from v w have "v @ w \<in> lang (Seq r1 r2)" "rest st = (v @ w) @ rest e" by auto
  then show ?case by blast
next
  case (Alt r1 r2)
  from Alt.prems have "e \<in> set (matches r1 st) \<or> e \<in> set (matches r2 st)" by simp
  then show ?case
  proof
    assume "e \<in> set (matches r1 st)"
    from Alt.IH(1) [OF _ this] Alt.prems(1) show ?thesis by auto
  next
    assume "e \<in> set (matches r2 st)"
    from Alt.IH(2) [OF _ this] Alt.prems(1) show ?thesis by auto
  qed
next
  case (Rep g P lo hi)
  from Rep.prems obtain k where k: "k \<in> set (rep_counts g P lo hi (rest st))" "e = advance k st"
    by auto
  from k(1) have b: "lo \<le> k" "k \<le> length (takeWhile P (rest st))"
    "case hi of None \<Rightarrow> True | Some h \<Rightarrow> k \<le> h"
    by (simp_all add: rep_counts_set)
  from take_run_all [OF b(2)] b(1,3) have "take k (rest st) \<in> lang (Rep g P lo hi)"
    by (simp split: option.splits)
  moreover have "rest st = take k (rest st) @ rest e" by (simp add: k(2))
  ultimately show ?case by blast
next
  case (Group n r)
  from Group.prems obtain e' where e': "e' \<in> set (matches r st)" "rest e = rest e'"
    by auto
  from Group.IH [OF _ e'(1)] Group.prems(1) e'(2) show ?case by auto
qed simp_all

lemma matches_complete:
  "plain r \<Longrightarrow> w \<in> lang r \<Longrightarrow> rest st = w @ t \<Longrightarrow> \<exists>e \<in> set (matches r st). rest e = t"
proof (induction r arbitrary: st w t)
  case Eps
  then show ?case by simp
next
  case (Atom P)
  then show ?case by auto
next
  case (Seq r1 r2)
  from Seq.prems(2) obtain v x where vx: "w = v @ x" "v \<in> lang r1" "x \<in> lang r2" by auto
  with Seq.prems have "rest st = v @ (x @ t)" by simp
  from Seq.IH(1) [OF _ vx(2) this] Seq.prems(1)
  obtain e1 where e1: "e1 \<in> set (matches r1 st)" "rest e1 = x @ t" by auto
  from Seq.IH(2) [OF _ vx(3) e1(2)] Seq.prems(1)
  obtain e2 where "e2 \<in> set (matches r2 e1)" "rest e2 = t" by auto
  with e1(1) show ?case by auto
next
  case (Alt r1 r2)
  then show ?case by fastforce
next
  case (Rep g P lo hi)
  from Rep.prems(2) have w: "list_all P w" "lo \<le> length w"
    "case hi of None \<Rightarrow> True | Some h \<Rightarrow> length w \<le> h"
    by simp_all
  from w(1) have "takeWhile P (w @ t) = w @ takeWhile P t"
    by (simp add: takeWhile_append2 list_all_iff)
  then have "length w \<le> length (takeWhile P (rest st))" using Rep.prems(3) by simp
  with w(2,3) have "length w \<in> set (rep_counts g P lo hi (rest st))"
    by (simp add: rep_counts_set)
  then have "advance (length w) st \<in> set (matches (Rep g P lo hi) st)" by simp
  moreover have "rest (advance (length w) st) = t" using Rep.prems(3) by simp
  ultimately show ?case by blast
next
  case (Group n r)
  from Group.prems(1,2) have "plain r" "w \<in> lang r" by simp_all
  from Group.IH [OF this Group.prems(3)]
  obtain e where "e \<in> set (matches r st)" "rest e = t" by auto
  then show ?case by force
qed simp_all


lemma rejects_plain: "rejects Q r \<Longrightarrow> plain r"
  by (induction r) simp_all

lemma lang_rejects: "rejects Q r \<Longrightarrow> w \<in> lang r \<Longrightarrow> c \<in> set w \<Longrightarrow> \<not> Q c"
proof (induction r arbitrary: w)
  case (Rep g P lo hi)
  then show ?case by (auto simp: list_all_iff)
qed auto

lemma no_match:
  assumes "rejects Q r" and "[] \<notin> lang r" and "rest st = [] \<or> Q (hd (rest st))"
  shows "matches r st = []"
proof (rule ccontr)
  assume "matches r st \<noteq> []"
  then obtain e where "e \<in> set (matches r st)" by (cases "matches r st") auto
  from matches_sound [OF rejects_plain [OF assms(1)] this]
  obtain w where w: "w \<in> lang r" "rest st = w @ rest e" by blast
  with assms(2) have "w \<noteq> []" by auto
  then have "hd (rest st) \<in> set w" "rest st \<noteq> []" using w(2) by simp_all
  with lang_rejects [OF assms(1) w(1)] assms(3) show False by auto
qed

lemma list_all2_concat_map:
  "list_all2 R xs ys \<Longrightarrow> (\<And>x y. R x y \<Longrightarrow> list_all2 S (f x) (g y)) \<Longrightarrow>
   list_all2 S (concat (map f xs)) (concat (map g ys))"
  by (induction rule: list_all2_induct) (simp_all add: list_all2_appendI)

lemma matches_prev:
  "plain r \<Longrightarrow> rest st = rest st' \<Longrightarrow> caps st = caps st' \<Longrightarrow>
   list_all2 (\<lambda>a b. rest a = rest b \<and> caps a = caps b) (matches r st) (matches r st')"
proof (induction r arbitrary: st st')
  case Eps
  then show ?case by simp
next
  case (Atom P)
  then show ?case by (cases "rest st'") simp_all
next
  case (Seq r1 r2)
  from Seq.prems have p: "plain r1" "plain r2" by simp_all
  have "list_all2 (\<lambda>a b. rest a = rest b \<and> caps a = caps b)
          (concat (map (matches r2) (matches r1 st))) (concat (map (matches r2) (matches r1 st')))"
    by (rule list_all2_concat_map [OF Seq.IH(1) [OF p(1) Seq.prems(2,3)]])
       (simp add: Seq.IH(2) [OF p(2)])
  then show ?case by simp
next
  case (Alt r1 r2)
  then show ?case by (simp add: list_all2_appendI)
next
  case (Rep g P lo hi)
  then show ?case by (simp add: list_all2_map1 list_all2_map2 list_all2_same)
next
  case (Group n r)
  from Group.prems have "list_all2 (\<lambda>a b. rest a = rest b \<and> caps a = caps b)
      (matches r st) (matches r st')"
    by (intro Group.IH) simp_all
  then show ?case
    using Group.prems(2)
    by (simp add: list_all2_map1 list_all2_map2 consumed_def list_all2_mono)
qed simp_all

lemma advance_ext:
  "k \<le> length (rest st) \<Longrightarrow>
   advance k (st\<lparr>rest := rest st @ ws\<rparr>) = (advance k st)\<lparr>rest := rest (advance k st) @ ws\<rparr>"
  by (simp add: advance_def split: list.splits)

lemma matches_ext:
  "rejects Q r \<Longrightarrow> \<forall>c\<in>set ws. Q c \<Longrightarrow>
   matches r (st\<lparr>rest := rest st @ ws\<rparr>) = map (\<lambda>e. e\<lparr>rest := rest e @ ws\<rparr>) (matches r st)"
proof (induction r arbitrary: st)
  case Eps
  then show ?case by simp
next
  case (Atom P)
  then show ?case by (cases "rest st"; cases ws) auto
next
  case (Seq r1 r2)
  from Seq.prems have p: "rejects Q r1" "rejects Q r2" by simp_all
  show ?case
    by (simp add: Seq.IH(1) [OF p(1) Seq.prems(2)] Seq.IH(2) [OF p(2) Seq.prems(2)]
        map_concat comp_def)
next
  case (Alt r1 r2)
  then show ?case by simp
next
  case (Rep g P lo hi)
  from Rep.prems have "takeWhile P ws = []"
    by (cases ws) simp_all
  then have tw: "takeWhile P (rest st @ ws) = takeWhile P (rest st)"
  proof (cases "\<forall>c\<in>set (rest st). P c")
    case True
    then have a: "takeWhile P (rest st) = rest st" by simp
    from True have b: "takeWhile P (rest st @ ws) = rest st @ takeWhile P ws" by simp
    show ?thesis unfolding a b \<open>takeWhile P ws = []\<close> by simp
  next
    case False
    then obtain x where "x \<in> set (rest st)" "\<not> P x" by blast
    then show ?thesis by (rule takeWhile_append1)
  qed
  then have rc: "rep_counts g P lo hi (rest st @ ws) = rep_counts g P lo hi (rest st)"
    by (simp add: rep_counts_def)
  have "k \<in> set (rep_counts g P lo hi (rest st)) \<Longrightarrow> k \<le> length (rest st)" for k
    using length_takeWhile_le [of P "rest st"] by (simp add: rep_counts_set)
  then show ?case by (simp add: rc advance_ext)
next
  case (Group n r)
  from Group.prems have "rejects Q r" by simp
  from Group.IH [OF this Group.prems(2)] show ?case
    by (simp add: comp_def consumed_def)
qed simp_all

lemma search_sound:
  "plain r \<Longrightarrow> search_at r i p s = Some m \<Longrightarrow>
   \<exists>a b. s = a @ m_text m @ b \<and> m_start m = i + length a \<and> m_text m \<in> lang r"
proof (induction s arbitrary: i p)
  case Nil
  let ?st = "\<lparr>prev = p, rest = [], caps = Map.empty\<rparr>"
  from Nil.prems(2) obtain e es where e: "matches r ?st = e # es" "m = mk_match i ?st e"
    by (auto split: list.splits)
  then have "e \<in> set (matches r ?st)" by simp
  from matches_sound [OF Nil.prems(1) this] obtain w where "w \<in> lang r" "rest ?st = w @ rest e"
    by blast
  then show ?case using e(2) by (simp add: mk_match_def consumed_def)
next
  case (Cons c cs)
  let ?st = "\<lparr>prev = p, rest = c # cs, caps = Map.empty\<rparr>"
  show ?case
  proof (cases "matches r ?st")
    case Nil
    with Cons.prems(2) have "search_at r (Suc i) (Some c) cs = Some m" by simp
    from Cons.IH [OF Cons.prems(1) this]
    obtain a b where "cs = a @ m_text m @ b" "m_start m = Suc i + length a" "m_text m \<in> lang r"
      by blast
    then have "c # cs = (c # a) @ m_text m @ b \<and> m_start m = i + length (c # a) \<and> m_text m \<in> lang r"
      by simp
    then show ?thesis by blast
  next
    case (Cons e es)
    with Cons.prems(2) have m: "m = mk_match i ?st e" by simp
    from Cons have "e \<in> set (matches r ?st)" by simp
    from matches_sound [OF Cons.prems(1) this] obtain w where w: "w \<in> lang r" "rest ?st = w @ rest e"
      by blast
    then have "m_text m = w" by (simp add: m mk_match_def consumed_def)
    with w have "c # cs = [] @ m_text m @ rest e \<and> m_start m = i + length ([]::string) \<and> m_text m \<in> lang r"
      by (simp add: m mk_match_def)
    then show ?thesis by blast
  qed
qed

lemma search_finds:
  "plain r \<Longrightarrow> w \<in> lang r \<Longrightarrow> s = a @ w @ b \<Longrightarrow>
   \<exists>m. search_at r i p s = Some m \<and> m_start m \<le> i + length a"
proof (induction a arbitrary: i p s)
  case Nil
  let ?st = "\<lparr>prev = p, rest = s, caps = Map.empty\<rparr>"
  from Nil.prems have "rest ?st = w @ b" by simp
  from matches_complete [OF Nil.prems(1,2) this] have "matches r ?st \<noteq> []" by auto
  then show ?case by (cases s; cases "matches r ?st") (simp_all add: mk_match_def)
next
  case (Cons x a)
  let ?st = "\<lparr>prev = p, rest = s, caps = Map.empty\<rparr>"
  from Cons.prems(3) have s: "s = x # (a @ w @ b)" by simp
  show ?case
  proof (cases "matches r ?st")
    case Nil
    from Cons.IH [OF Cons.prems(1,2) refl, of "Suc i" "Some x"] Nil show ?thesis
      by (auto simp: s)
  next
    case (Cons e es)
    then show ?thesis by (simp add: s mk_match_def)
  qed
qed

lemma search_text_indep:
  "plain r \<Longrightarrow>
   map_option m_text (search_at r i p s) = map_option m_text (search_at r j q s)"
proof (induction s arbitrary: i p j q)
  case Nil
  from matches_prev [OF Nil, of "\<lparr>prev = p, rest = [], caps = Map.empty\<rparr>"
      "\<lparr>prev = q, rest = [], caps = Map.empty\<rparr>"]
  show ?case by (auto simp: mk_match_def consumed_def list_all2_Cons1 split: list.splits)
next
  case (Cons c cs)
  from matches_prev [OF Cons.prems, of "\<lparr>prev = p, rest = c # cs, caps = Map.empty\<rparr>"
      "\<lparr>prev = q, rest = c # cs, caps = Map.empty\<rparr>"] Cons.IH [OF Cons.prems, of "Suc i" "Some c" "Suc j" "Some c"]
  show ?case by (auto simp: mk_match_def consumed_def list_all2_Cons1 split: list.splits)
qed

lemma search_all_rejected:
  "rejects Q r \<Longrightarrow> [] \<notin> lang r \<Longrightarrow> \<forall>c\<in>set ws. Q c \<Longrightarrow> search_at r i p ws = None"
  by (induction ws arbitrary: i p) (simp_all add: no_match)

lemma search_leading:
  "rejects Q r \<Longrightarrow> [] \<notin> lang r \<Longrightarrow> \<forall>c\<in>set ws. Q c \<Longrightarrow>
   map_option m_text (search_at r i p (ws @ s)) = map_option m_text (search_at r j q s)"
proof (induction ws arbitrary: i p)
  case Nil
  then show ?case by (simp add: search_text_indep [OF rejects_plain])
next
  case (Cons c ws)
  then show ?case by (simp add: no_match)
qed

lemma consumed_ext:
  "consumed (st\<lparr>rest := rest st @ ws\<rparr>) (e\<lparr>rest := rest e @ ws\<rparr>) = consumed st e"
  by (simp add: consumed_def)

lemma search_trailing:
  "rejects Q r \<Longrightarrow> [] \<notin> lang r \<Longrightarrow> \<forall>c\<in>set ws. Q c \<Longrightarrow>
   map_option m_text (search_at r i p (s @ ws)) = map_option m_text (search_at r i p s)"
proof (induction s arbitrary: i p)
  case Nil
  then show ?case by (simp add: search_all_rejected no_match)
next
  case (Cons c cs)
  from matches_ext [OF Cons.prems(1,3), of "\<lparr>prev = p, rest = c # cs, caps = Map.empty\<rparr>"]
  have "matches r \<lparr>prev = p, rest = c # cs @ ws, caps = Map.empty\<rparr> =
        map (\<lambda>e. e\<lparr>rest := rest e @ ws\<rparr>) (matches r \<lparr>prev = p, rest = c # cs, caps = Map.empty\<rparr>)"
    by simp
  with Cons.IH [OF Cons.prems, of "Suc i" "Some c"]
    consumed_ext [of "\<lparr>prev = p, rest = c # cs, caps = Map.empty\<rparr>" ws, simplified]
  show ?case
    by (cases "matches r \<lparr>prev = p, rest = c # cs, caps = Map.empty\<rparr>")
       (simp_all add: mk_match_def)
qed

lemma strip_decompose:
  "\<exists>ws1 ws2. u = ws1 @ str_strip u @ ws2 \<and> (\<forall>c\<in>set ws1. is_space c) \<and> (\<forall>c\<in>set ws2. is_space c)"
proof -
  let ?v = "dropWhile is_space u"
  have "rev (takeWhile is_space (rev ?v) @ dropWhile is_space (rev ?v)) = rev (rev ?v)"
    by (simp only: takeWhile_dropWhile_id)
  then have "rev (dropWhile is_space (rev ?v)) @ rev (takeWhile is_space (rev ?v)) = ?v"
    by (simp only: rev_append rev_rev_ident)
  then have v: "?v = str_strip u @ rev (takeWhile is_space (rev ?v))"
    by (simp only: str_strip_def)
  have "u = takeWhile is_space u @ ?v" by simp
  with v have "u = takeWhile is_space u @ str_strip u @ rev (takeWhile is_space (rev ?v))"
    by simp
  moreover have "\<forall>c\<in>set (takeWhile is_space u). is_space c" by (auto dest: set_takeWhileD)
  moreover have "\<forall>c\<in>set (rev (takeWhile is_space (rev ?v))). is_space c"
    by (auto dest: set_takeWhileD)
  ultimately show ?thesis by blast
qed

lemma search_strip:
  assumes "rejects is_space r" and "[] \<notin> lang r"
  shows "map_option m_text (re_search r (str_strip u)) = map_option m_text (re_search r u)"
proof -
  from strip_decompose [of u] obtain ws1 ws2 where
    u: "u = ws1 @ str_strip u @ ws2" and ws: "\<forall>c\<in>set ws1. is_space c" "\<forall>c\<in>set ws2. is_space c"
    by blast
  have "map_option m_text (re_search r u) =
        map_option m_text (search_at r 0 None (ws1 @ (str_strip u @ ws2)))"
    using u by (simp add: re_search_def)
  also have "\<dots> = map_option m_text (search_at r 0 None (str_strip u @ ws2))"
    by (rule search_leading [OF assms ws(1)])
  also have "\<dots> = map_option m_text (search_at r 0 None (str_strip u))"
    by (rule search_trailing [OF assms ws(2)])
  finally show ?thesis by (simp add: re_search_def)
qed


section \<open>Email extraction\<close>

lemma email_of_extract:
  "email (candidate_info (extract_and_update_info order u m)) =
     email (extract_email (str_strip u) (candidate_info m))"
  by (simp add: extract_and_update_info_def extract_tech_def extract_years_def extract_phone_def
      Let_def split: option.splits)

lemma space_not_email:
  "is_space c \<Longrightarrow> \<not> email_local c \<and> \<not> email_domain c \<and> \<not> is_alpha c \<and> c \<noteq> CHR ''@'' \<and> c \<noteq> CHR ''.''"
  by (auto simp: is_space_def email_local_def email_domain_def is_alpha_def is_lower_def
      is_upper_def lowers_def uppers_def is_digit_def)

lemma rejects_EMAIL_RE: "rejects is_space EMAIL_RE"
  using space_not_email by (auto simp: EMAIL_RE_def seqs_def chr_def)

lemma plain_EMAIL_RE: "plain EMAIL_RE"
  by (rule rejects_plain [OF rejects_EMAIL_RE])

lemma empty_not_email: "[] \<notin> lang EMAIL_RE"
  by (simp add: EMAIL_RE_def seqs_def chr_def)

lemma lang_EMAIL_RE:
  assumes "name \<noteq> []" "list_all email_local name" "host \<noteq> []" "list_all email_domain host"
    "2 \<le> length tld" "list_all is_alpha tld"
  shows "name @ ''@'' @ host @ ''.'' @ tld \<in> lang EMAIL_RE"
proof -
  have 1: "name \<in> lang (Rep True email_local 1 None)" using assms(1,2) by (cases name) simp_all
  have 2: "host \<in> lang (Rep True email_domain 1 None)" using assms(3,4) by (cases host) simp_all
  have 3: "tld \<in> lang (Rep True is_alpha 2 None)" using assms(5,6) by simp
  have "name @ (''@'' @ (host @ (''.'' @ (tld @ [])))) \<in> lang EMAIL_RE"
    unfolding EMAIL_RE_def seqs_def chr_def foldr.simps comp_def lang.simps(3)
    using 1 2 3 by (intro CollectI exI conjI refl) simp_all
  then show ?thesis by simp
qed

lemma email_kept:
  "truthy (email (candidate_info m)) \<Longrightarrow>
   email (candidate_info (fold (extract_and_update_info order) us m)) = email (candidate_info m)"
  by (induction us arbitrary: m) (simp_all add: email_of_extract extract_email_def)

text \<open>
  C2. When an utterance contains an address of the shape \<open>local@domain.tld\<close> (a
  non-empty local part, a non-empty domain, a top-level part of at least two letters,
  each over the character class the pattern gives it) and \<open>email\<close> is not yet set,
  \<open>extract_and_update_info\<close> sets \<open>email\<close> to the text of the first match of the
  pattern in that utterance: the match exists, starts no later than the address, has
  that shape, and is stored unchanged. After that no sequence of later calls, whatever
  addresses their utterances hold, changes the field.
\<close>

theorem email_first_match:
  assumes "name \<noteq> []" and "list_all email_local name"
    and "host \<noteq> []" and "list_all email_domain host"
    and "2 \<le> length tld" and "list_all is_alpha tld"
    and "u = pre @ name @ ''@'' @ host @ ''.'' @ tld @ post"
    and "\<not> truthy (email (candidate_info m))"
  shows "\<exists>mt. re_search EMAIL_RE u = Some mt \<and> m_start mt \<le> length pre \<and>
           m_text mt \<in> lang EMAIL_RE \<and>
           email (candidate_info (extract_and_update_info order u m)) = Some (m_text mt) \<and>
           (\<forall>us. email (candidate_info (fold (extract_and_update_info order) us
                     (extract_and_update_info order u m))) = Some (m_text mt))"
proof -
  let ?w = "name @ ''@'' @ host @ ''.'' @ tld"
  have w: "?w \<in> lang EMAIL_RE" by (rule lang_EMAIL_RE [OF assms(1-6)])
  have "u = pre @ ?w @ post" using assms(7) by simp
  from search_finds [OF plain_EMAIL_RE w this, of 0 None]
  obtain mt where mt: "re_search EMAIL_RE u = Some mt" "m_start mt \<le> length pre"
    by (auto simp: re_search_def)
  from search_sound [OF plain_EMAIL_RE mt(1) [unfolded re_search_def]]
  have l: "m_text mt \<in> lang EMAIL_RE" by blast
  with empty_not_email have ne: "m_text mt \<noteq> []" by auto
  from search_strip [OF rejects_EMAIL_RE empty_not_email, of u] mt(1)
  obtain ms where ms: "re_search EMAIL_RE (str_strip u) = Some ms" "m_text ms = m_text mt"
    by auto
  have e: "email (candidate_info (extract_and_update_info order u m)) = Some (m_text mt)"
    using assms(8) ms by (simp add: email_of_extract extract_email_def)
  then have "truthy (email (candidate_info (extract_and_update_info order u m)))"
    using ne by (simp add: truthy_def)
  from email_kept [OF this] e
  have "\<forall>us. email (candidate_info (fold (extract_and_update_info order) us
                     (extract_and_update_info order u m))) = Some (m_text mt)"
    by simp
  with mt l e show ?thesis by blast
qed

theorem email_first_match_witness:
  "email (candidate_info (extract_and_update_info TECH_KEYWORDS
      ''  reach me at jane.doe@example.com or bob@example.org  '' new_manager))
     = Some ''jane.doe@example.com'' \<and>
   email (candidate_info (fold (extract_and_update_info TECH_KEYWORDS)
      [''sorry, use bob@example.org'']
      (extract_and_update_info TECH_KEYWORDS
         ''  reach me at jane.doe@example.com or bob@example.org  '' new_manager)))
     = Some ''jane.doe@example.com''"
proof -
  let ?u = "''  reach me at jane.doe@example.com or bob@example.org  ''"
  have h: "''jane.doe'' \<noteq> []" "list_all email_local ''jane.doe''"
    "''example'' \<noteq> []" "list_all email_domain ''example''"
    "2 \<le> length ''com''" "list_all is_alpha ''com''"
    "?u = ''  reach me at '' @ ''jane.doe'' @ ''@'' @ ''example'' @ ''.'' @ ''com'' @
          '' or bob@example.org  ''"
    "\<not> truthy (email (candidate_info new_manager))"
    by (simp_all add: email_local_def email_domain_def is_alpha_def is_lower_def is_upper_def
        lowers_def uppers_def is_digit_def truthy_def new_manager_def)
  have t: "map_option m_text (re_search EMAIL_RE ?u) = Some ''jane.doe@example.com''"
    by code_simp
  from email_first_match [OF h, of TECH_KEYWORDS] obtain mt where
    mt: "re_search EMAIL_RE ?u = Some mt"
      "email (candidate_info (extract_and_update_info TECH_KEYWORDS ?u new_manager))
         = Some (m_text mt)"
      "\<forall>us. email (candidate_info (fold (extract_and_update_info TECH_KEYWORDS) us
         (extract_and_update_info TECH_KEYWORDS ?u new_manager))) = Some (m_text mt)"
    by blast
  from t mt(1) have "m_text mt = ''jane.doe@example.com''" by simp
  with mt(2) mt(3) [rule_format, of "[''sorry, use bob@example.org'']"] show ?thesis
    by (simp only:)
qed


section \<open>Phone extraction\<close>










end
